theory Spec2Isabelle
  imports Main "HOL-Library.Sublist"
begin

section \<open>Multiaddr format patterns (patterns.go)\<close>

subsection \<open>Data model\<close>

text \<open>
  A protocol segment of the multiaddr library. The matcher reads only the field
  \<open>Code\<close>, and rendering reads only the field \<open>Name\<close>; the other fields of the
  library's struct are never touched by this package. Go's \<open>int\<close> carries no
  arithmetic here (codes are only compared), so it is an unbounded \<open>int\<close>.
\<close>

record Protocol =
  Name :: string
  Code :: int

text \<open>
  The package looks at an address only through \<open>a.Protocols()\<close>, so an address is
  the ordered list of its protocol segments; the address with no segment is the empty
  list. A \<open>nil\<close> interface value is not an address and has no counterpart here.
\<close>

type_synonym Multiaddr = "Protocol list"

text \<open>
  The interface \<open>Pattern\<close> has an unexported method, so its only implementations are
  the two of this package: \<open>Base\<close> (an integer code) and the struct \<open>pattern\<close> with
  its fields \<open>Args\<close> and \<open>Op\<close>. The operator is a plain integer in the source, so
  it is one here, and the \<open>default\<close> branches that panic stay part of the model.
  Patterns are immutable once built, so a child shared by several parents behaves as a
  copy of it and the pointer structure is a finite tree. A \<open>nil\<close> child has no
  counterpart here.
\<close>

datatype Pattern = Base int | pattern (Args: "Pattern list") (Op: int)

definition op_or :: int where
  "op_or = 0"

definition op_and :: int where
  "op_and = 1"

definition And :: "Pattern list \<Rightarrow> Pattern" where
  "And ps = pattern ps op_and"

definition Or :: "Pattern list \<Rightarrow> Pattern" where
  "Or ps = pattern ps op_or"

text \<open>The run-time failures of the source: its two explicit panics and Go's bounds check.\<close>

datatype error = UnrecognizedPatternOperand | UnrecognizedPatternOp | IndexOutOfRange

subsection \<open>Matching\<close>

text \<open>
  \<open>partialMatch\<close> dispatches on the implementation: the first equation is
  \<open>Base.partialMatch\<close>, the second is \<open>pattern.partialMatch\<close>. The two \<open>for\<close> loops
  of the latter are \<open>or_loop\<close> and \<open>and_loop\<close>; a panic raised by a child leaves the
  loop at once. A \<open>nil\<close> remainder is the empty list.
\<close>

fun partialMatch :: "Pattern \<Rightarrow> Protocol list \<Rightarrow> error + bool \<times> Protocol list"
  and or_loop :: "Pattern list \<Rightarrow> Protocol list \<Rightarrow> error + bool \<times> Protocol list"
  and and_loop :: "Pattern list \<Rightarrow> Protocol list \<Rightarrow> error + bool \<times> Protocol list"
where
  "partialMatch (Base p) pcs =
     (if length pcs = 0 then Inr (False, [])
      else if Code (hd pcs) = p then Inr (True, tl pcs)
      else Inr (False, []))"
| "partialMatch (pattern args opr) pcs =
     (if opr = op_or then or_loop args pcs
      else if opr = op_and then
        (if length pcs < length args then Inr (False, []) else and_loop args pcs)
      else Inl UnrecognizedPatternOperand)"
| "or_loop [] pcs = Inr (False, [])"
| "or_loop (a # rest) pcs =
     (case partialMatch a pcs of
        Inl e \<Rightarrow> Inl e
      | Inr (ok, rm) \<Rightarrow> if ok then Inr (True, rm) else or_loop rest pcs)"
| "and_loop [] pcs = Inr (True, pcs)"
| "and_loop (a # rest) pcs =
     (case partialMatch a pcs of
        Inl e \<Rightarrow> Inl e
      | Inr (ok, rm) \<Rightarrow> if \<not> ok then Inr (False, []) else and_loop rest rm)"

text \<open>\<open>pattern.Matches\<close>: the partial match must succeed and leave nothing over.\<close>

definition pattern_Matches :: "Pattern list \<Rightarrow> int \<Rightarrow> Multiaddr \<Rightarrow> error + bool" where
  "pattern_Matches args opr a =
     (case partialMatch (pattern args opr) a of
        Inl e \<Rightarrow> Inl e
      | Inr (ok, rm) \<Rightarrow> Inr (ok \<and> length rm = 0))"

text \<open>
  \<open>Base.Matches\<close> reads \<open>pcs[0]\<close> before it compares the length, so on an empty
  address Go's bounds check panics.
\<close>

definition Base_Matches :: "int \<Rightarrow> Multiaddr \<Rightarrow> error + bool" where
  "Base_Matches p a =
     (case a of
        [] \<Rightarrow> Inl IndexOutOfRange
      | x # _ \<Rightarrow> Inr (Code x = p \<and> length a = 1))"

text \<open>The interface method \<open>Matches\<close>, dispatched on the implementation.\<close>

fun Matches :: "Pattern \<Rightarrow> Multiaddr \<Rightarrow> error + bool" where
  "Matches (Base p) a = Base_Matches p a"
| "Matches (pattern args opr) a = pattern_Matches args opr a"

subsection \<open>Rendering\<close>

text \<open>
  \<open>strings.Join\<close> of the Go standard library: the elements in order, the separator
  between each two of them, and the empty string for no element.
\<close>

fun Join :: "string list \<Rightarrow> string \<Rightarrow> string" where
  "Join [] sep = []"
| "Join [x] sep = x"
| "Join (x # y # ys) sep = x @ sep @ Join (y # ys) sep"

text \<open>
  \<open>String\<close> takes the registry lookup \<open>ma.ProtocolWithCode\<close> of the multiaddr library
  as a parameter; it is total there (an unknown code gives the zero protocol).
  \<open>String_loop\<close> is the loop of \<open>pattern.String\<close> that appends each child's rendering
  to \<open>sub\<close>; the operator is inspected only after the loop.
\<close>

fun String :: "(int \<Rightarrow> Protocol) \<Rightarrow> Pattern \<Rightarrow> error + string"
  and String_loop :: "(int \<Rightarrow> Protocol) \<Rightarrow> Pattern list \<Rightarrow> string list \<Rightarrow> error + string list"
where
  "String ProtocolWithCode (Base p) = Inr (Name (ProtocolWithCode p))"
| "String ProtocolWithCode (pattern args opr) =
     (case String_loop ProtocolWithCode args [] of
        Inl e \<Rightarrow> Inl e
      | Inr sub \<Rightarrow>
          if opr = op_and then Inr (Join sub ''/'')
          else if opr = op_or then Inr (''{'' @ Join sub ''|'' @ ''}'')
          else Inl UnrecognizedPatternOp)"
| "String_loop ProtocolWithCode [] sub = Inr sub"
| "String_loop ProtocolWithCode (a # rest) sub =
     (case String ProtocolWithCode a of
        Inl e \<Rightarrow> Inl e
      | Inr s \<Rightarrow> String_loop ProtocolWithCode rest (sub @ [s]))"

subsection \<open>Patterns built by the constructors\<close>

text \<open>
  The struct \<open>pattern\<close> is unexported, so every value of it comes from \<open>And\<close> or
  \<open>Or\<close>. \<open>constructed\<close> holds of the trees that \<open>Base\<close>, \<open>And\<close> and \<open>Or\<close> can
  build: every operator in the tree is \<open>or\<close> or \<open>and\<close>.
\<close>

fun constructed :: "Pattern \<Rightarrow> bool" where
  "constructed (Base p) = True"
| "constructed (pattern args opr) =
     ((opr = op_or \<or> opr = op_and) \<and> (\<forall>a\<in>set args. constructed a))"

subsection \<open>Recursion depth\<close>

text \<open>
  \<open>depth\<close> is the height of a pattern tree (a \<open>Base\<close> is a tree of height one);
  \<open>depths\<close> is the largest height in a list of children.
\<close>

fun depth :: "Pattern \<Rightarrow> nat"
  and depths :: "Pattern list \<Rightarrow> nat"
where
  "depth (Base p) = 1"
| "depth (pattern args opr) = Suc (depths args)"
| "depths [] = 0"
| "depths (a # rest) = max (depth a) (depths rest)"

text \<open>
  The matcher once more, with a bound on the depth of nested \<open>partialMatch\<close> calls:
  every call of \<open>partialMatch\<close> takes one unit from the bound, the loops pass the
  bound on to each child, and \<open>None\<close> means that the bound was reached before the
  call returned. The bodies are those of \<open>partialMatch\<close>, \<open>or_loop\<close> and \<open>and_loop\<close>.
\<close>

fun partialMatch_fuel :: "nat \<Rightarrow> Pattern \<Rightarrow> Protocol list \<Rightarrow> (error + bool \<times> Protocol list) option"
  and or_loop_fuel :: "nat \<Rightarrow> Pattern list \<Rightarrow> Protocol list \<Rightarrow> (error + bool \<times> Protocol list) option"
  and and_loop_fuel :: "nat \<Rightarrow> Pattern list \<Rightarrow> Protocol list \<Rightarrow> (error + bool \<times> Protocol list) option"
where
  "partialMatch_fuel 0 p pcs = None"
| "partialMatch_fuel (Suc n) (Base p) pcs =
     Some (if length pcs = 0 then Inr (False, [])
           else if Code (hd pcs) = p then Inr (True, tl pcs)
           else Inr (False, []))"
| "partialMatch_fuel (Suc n) (pattern args opr) pcs =
     (if opr = op_or then or_loop_fuel n args pcs
      else if opr = op_and then
        (if length pcs < length args then Some (Inr (False, [])) else and_loop_fuel n args pcs)
      else Some (Inl UnrecognizedPatternOperand))"
| "or_loop_fuel n [] pcs = Some (Inr (False, []))"
| "or_loop_fuel n (a # rest) pcs =
     (case partialMatch_fuel n a pcs of
        None \<Rightarrow> None
      | Some (Inl e) \<Rightarrow> Some (Inl e)
      | Some (Inr (ok, rm)) \<Rightarrow> if ok then Some (Inr (True, rm)) else or_loop_fuel n rest pcs)"
| "and_loop_fuel n [] pcs = Some (Inr (True, pcs))"
| "and_loop_fuel n (a # rest) pcs =
     (case partialMatch_fuel n a pcs of
        None \<Rightarrow> None
      | Some (Inl e) \<Rightarrow> Some (Inl e)
      | Some (Inr (ok, rm)) \<Rightarrow> if \<not> ok then Some (Inr (False, [])) else and_loop_fuel n rest rm)"

text \<open>\<open>Matches\<close> under the same bound; \<open>Base.Matches\<close> makes no nested call.\<close>

definition Matches_fuel :: "nat \<Rightarrow> Pattern \<Rightarrow> Multiaddr \<Rightarrow> (error + bool) option" where
  "Matches_fuel n p a =
     (case p of
        Base c \<Rightarrow> Some (Base_Matches c a)
      | pattern args opr \<Rightarrow>
          (case partialMatch_fuel n p a of
             None \<Rightarrow> None
           | Some (Inl e) \<Rightarrow> Some (Inl e)
           | Some (Inr (ok, rm)) \<Rightarrow> Some (Inr (ok \<and> length rm = 0))))"

subsection \<open>Sample data\<close>

text \<open>
  A few segments with the codes and names that the multiaddr library's table gives them,
  and a registry lookup that knows these five and returns the zero protocol otherwise.
\<close>

definition ip4 :: Protocol where
  "ip4 = \<lparr>Name = ''ip4'', Code = 4\<rparr>"

definition ip6 :: Protocol where
  "ip6 = \<lparr>Name = ''ip6'', Code = 41\<rparr>"

definition tcp :: Protocol where
  "tcp = \<lparr>Name = ''tcp'', Code = 6\<rparr>"

definition udp :: Protocol where
  "udp = \<lparr>Name = ''udp'', Code = 273\<rparr>"

definition http :: Protocol where
  "http = \<lparr>Name = ''http'', Code = 480\<rparr>"

definition sample_registry :: "int \<Rightarrow> Protocol" where
  "sample_registry c =
     (if c = 4 then ip4 else if c = 41 then ip6 else if c = 6 then tcp
      else if c = 273 then udp else if c = 480 then http
      else \<lparr>Name = [], Code = 0\<rparr>)"

section \<open>Properties\<close>

text \<open>The unfoldings that evaluate the matcher on the sample data.\<close>

lemmas ev = And_def Or_def op_or_def op_and_def pattern_Matches_def Base_Matches_def
  ip4_def ip6_def tcp_def udp_def http_def

subsection \<open>Failure carries no remainder; success returns a suffix\<close>

lemma fail_nil:
  "partialMatch p pcs = Inr (False, r) \<Longrightarrow> r = []"
  "or_loop ps pcs = Inr (False, r) \<Longrightarrow> r = []"
  "and_loop ps pcs = Inr (False, r) \<Longrightarrow> r = []"
  by (induction p pcs and ps pcs and ps pcs arbitrary: r and r and r rule: partialMatch_or_loop_and_loop.induct)
     (auto split: if_splits sum.splits prod.splits)

lemma remainder_suffix:
  "partialMatch p pcs = Inr (ok, r) \<Longrightarrow> suffix r pcs"
  "or_loop ps pcs = Inr (ok, r) \<Longrightarrow> suffix r pcs"
  "and_loop ps pcs = Inr (ok, r) \<Longrightarrow> suffix r pcs"
proof (induction p pcs and ps pcs and ps pcs arbitrary: ok r and ok r and ok r
       rule: partialMatch_or_loop_and_loop.induct)
  case (1 p pcs)
  then show ?case by (cases pcs) (auto split: if_splits simp: suffix_ConsI)
next
  case (2 args opr pcs)
  then show ?case by (auto split: if_splits)
next
  case (3 pcs)
  then show ?case by simp
next
  case (4 a rest pcs)
  then show ?case by (auto split: sum.splits prod.splits if_splits)
next
  case (5 pcs)
  then show ?case by simp
next
  case (6 a rest pcs)
  then show ?case
    by (fastforce split: sum.splits prod.splits if_splits intro: suffix_order.trans)
qed

subsection \<open>The loop of an alternative\<close>

lemma or_loop_True_iff:
  "or_loop ps pcs = Inr (True, r) \<longleftrightarrow>
     (\<exists>pre p post. ps = pre @ p # post \<and>
        (\<forall>q\<in>set pre. partialMatch q pcs = Inr (False, [])) \<and>
        partialMatch p pcs = Inr (True, r))"
proof (induction ps)
  case Nil
  show ?case by simp
next
  case (Cons a rest)
  show ?case
  proof (cases "partialMatch a pcs")
    case (Inl e)
    then show ?thesis by (auto simp: Cons_eq_append_conv)
  next
    case (Inr res)
    obtain ok rm where res: "res = (ok, rm)" by (cases res)
    show ?thesis
    proof (cases ok)
      case True
      with Inr res show ?thesis
        by (auto simp: Cons_eq_append_conv intro: exI[of _ "[]"])
    next
      case False
      have nil: "rm = []" using Inr res False fail_nil(1)[of a pcs rm] by simp
      have "or_loop (a # rest) pcs = or_loop rest pcs"
        using Inr res False by simp
      moreover have "(\<exists>pre p post. a # rest = pre @ p # post \<and>
        (\<forall>q\<in>set pre. partialMatch q pcs = Inr (False, [])) \<and>
        partialMatch p pcs = Inr (True, r)) \<longleftrightarrow> (\<exists>pre p post. rest = pre @ p # post \<and>
        (\<forall>q\<in>set pre. partialMatch q pcs = Inr (False, [])) \<and>
        partialMatch p pcs = Inr (True, r))" (is "?L \<longleftrightarrow> ?R")
      proof
        assume ?L
        then obtain pre p post where h: "a # rest = pre @ p # post"
          "\<forall>q\<in>set pre. partialMatch q pcs = Inr (False, [])" "partialMatch p pcs = Inr (True, r)"
          by blast
        show ?R
        proof (cases pre)
          case Nil
          with h Inr res False show ?thesis by simp
        next
          case (Cons b pre')
          with h show ?thesis by auto
        qed
      next
        assume ?R
        then obtain pre p post where h: "rest = pre @ p # post"
          "\<forall>q\<in>set pre. partialMatch q pcs = Inr (False, [])" "partialMatch p pcs = Inr (True, r)"
          by blast
        have "a # rest = (a # pre) @ p # post" using h by simp
        moreover have "\<forall>q\<in>set (a # pre). partialMatch q pcs = Inr (False, [])"
          using h Inr res False nil by simp
        ultimately show ?L using h(3) by blast
      qed
      ultimately show ?thesis using Cons.IH by simp
    qed
  qed
qed

lemma or_loop_False_iff:
  "or_loop ps pcs = Inr (False, r) \<longleftrightarrow>
     r = [] \<and> (\<forall>q\<in>set ps. partialMatch q pcs = Inr (False, []))"
proof (induction ps)
  case Nil
  show ?case by auto
next
  case (Cons a rest)
  show ?case
  proof (cases "partialMatch a pcs")
    case (Inl e)
    then show ?thesis by simp
  next
    case (Inr res)
    obtain ok rm where res: "res = (ok, rm)" by (cases res)
    show ?thesis
    proof (cases ok)
      case True
      with Inr res show ?thesis by simp
    next
      case False
      have nil: "rm = []" using Inr res False fail_nil(1)[of a pcs rm] by simp
      show ?thesis using Inr res False nil Cons.IH by simp
    qed
  qed
qed

subsection \<open>The loop of a sequence\<close>

lemma all_less_Suc_shift: "(\<forall>i<Suc n. P i) \<longleftrightarrow> P 0 \<and> (\<forall>i<n. P (Suc i))"
  by (metis less_Suc_eq_0_disj Suc_less_eq zero_less_Suc)

lemma and_loop_Cons_True:
  "and_loop (a # rest) pcs = Inr (True, r) \<longleftrightarrow>
     (\<exists>rm. partialMatch a pcs = Inr (True, rm) \<and> and_loop rest rm = Inr (True, r))"
  by (auto split: sum.splits prod.splits if_splits)

lemma and_loop_Cons_False:
  "and_loop (a # rest) pcs = Inr (False, r) \<longleftrightarrow>
     r = [] \<and> (partialMatch a pcs = Inr (False, []) \<or>
       (\<exists>rm. partialMatch a pcs = Inr (True, rm) \<and> and_loop rest rm = Inr (False, [])))"
  by (auto split: sum.splits prod.splits if_splits dest: fail_nil)

lemma and_loop_True_iff:
  "and_loop ps pcs = Inr (True, r) \<longleftrightarrow>
     (\<exists>rs. length rs = length ps \<and>
        (\<forall>i<length ps. partialMatch (ps ! i) ((pcs # rs) ! i) = Inr (True, rs ! i)) \<and>
        r = last (pcs # rs))"
proof (induction ps arbitrary: pcs)
  case Nil
  show ?case by auto
next
  case (Cons a rest)
  show ?case (is "?L \<longleftrightarrow> ?R")
  proof
    assume ?L
    then obtain rm where a: "partialMatch a pcs = Inr (True, rm)"
      and l: "and_loop rest rm = Inr (True, r)"
      unfolding and_loop_Cons_True by blast
    from l obtain rs where rs: "length rs = length rest"
      "\<forall>i<length rest. partialMatch (rest ! i) ((rm # rs) ! i) = Inr (True, rs ! i)"
      "r = last (rm # rs)"
      unfolding Cons.IH by blast
    have "length (rm # rs) = length (a # rest)" using rs by simp
    moreover have "\<forall>i<length (a # rest).
        partialMatch ((a # rest) ! i) ((pcs # rm # rs) ! i) = Inr (True, (rm # rs) ! i)"
      using a rs(2) by (simp add: all_less_Suc_shift)
    moreover have "r = last (pcs # rm # rs)" using rs(3) by simp
    ultimately show ?R by blast
  next
    assume ?R
    then obtain rs where rs: "length rs = length (a # rest)"
      "\<forall>i<length (a # rest). partialMatch ((a # rest) ! i) ((pcs # rs) ! i) = Inr (True, rs ! i)"
      "r = last (pcs # rs)"
      by blast
    from rs(1) obtain rm rs' where split: "rs = rm # rs'" by (cases rs) auto
    have a: "partialMatch a pcs = Inr (True, rm)"
      using rs(2) split by (simp add: all_less_Suc_shift)
    have "length rs' = length rest" using rs(1) split by simp
    moreover have "\<forall>i<length rest. partialMatch (rest ! i) ((rm # rs') ! i) = Inr (True, rs' ! i)"
      using rs(2) split by (simp add: all_less_Suc_shift)
    moreover have "r = last (rm # rs')" using rs(3) split by simp
    ultimately have "and_loop rest rm = Inr (True, r)"
      unfolding Cons.IH by blast
    with a show ?L unfolding and_loop_Cons_True by blast
  qed
qed

lemma and_loop_False_iff:
  "and_loop ps pcs = Inr (False, r) \<longleftrightarrow>
     r = [] \<and>
     (\<exists>k<length ps. \<exists>rs. length rs = k \<and>
        (\<forall>i<k. partialMatch (ps ! i) ((pcs # rs) ! i) = Inr (True, rs ! i)) \<and>
        partialMatch (ps ! k) (last (pcs # rs)) = Inr (False, []))"
proof (induction ps arbitrary: pcs r)
  case Nil
  show ?case by auto
next
  case (Cons a rest)
  show ?case (is "?L \<longleftrightarrow> ?R")
  proof
    assume L: ?L
    then have nil: "r = []" by (rule fail_nil(3))
    from L consider (first) "partialMatch a pcs = Inr (False, [])"
      | (later) rm where "partialMatch a pcs = Inr (True, rm)" "and_loop rest rm = Inr (False, [])"
      unfolding and_loop_Cons_False by blast
    then show ?R
    proof cases
      case first
      have "0 < length (a # rest)" by simp
      moreover have "length ([]::Protocol list list) = 0" by simp
      moreover have "partialMatch ((a # rest) ! 0) (last (pcs # [])) = Inr (False, [])"
        using first by simp
      ultimately show ?thesis using nil by blast
    next
      case later
      from later(2) obtain k rs where k: "k < length rest" "length rs = k"
        "\<forall>i<k. partialMatch (rest ! i) ((rm # rs) ! i) = Inr (True, rs ! i)"
        "partialMatch (rest ! k) (last (rm # rs)) = Inr (False, [])"
        unfolding Cons.IH by blast
      have "Suc k < length (a # rest)" using k(1) by simp
      moreover have "length (rm # rs) = Suc k" using k(2) by simp
      moreover have "\<forall>i<Suc k. partialMatch ((a # rest) ! i) ((pcs # rm # rs) ! i) = Inr (True, (rm # rs) ! i)"
        using later(1) k(3) by (simp add: all_less_Suc_shift)
      moreover have "partialMatch ((a # rest) ! Suc k) (last (pcs # rm # rs)) = Inr (False, [])"
        using k(4) by simp
      ultimately show ?thesis using nil by blast
    qed
  next
    assume R: ?R
    then obtain k rs where nil: "r = []" and k: "k < length (a # rest)" "length rs = k"
        "\<forall>i<k. partialMatch ((a # rest) ! i) ((pcs # rs) ! i) = Inr (True, rs ! i)"
        "partialMatch ((a # rest) ! k) (last (pcs # rs)) = Inr (False, [])"
      by blast
    show ?L
    proof (cases k)
      case 0
      with k have "partialMatch a pcs = Inr (False, [])" by simp
      then show ?thesis using nil unfolding and_loop_Cons_False by blast
    next
      case (Suc k')
      with k(2) obtain rm rs' where split: "rs = rm # rs'" by (cases rs) auto
      have a: "partialMatch a pcs = Inr (True, rm)"
        using k(3) split Suc by (simp add: all_less_Suc_shift)
      have "k' < length rest" using k(1) Suc by simp
      moreover have "length rs' = k'" using k(2) split Suc by simp
      moreover have "\<forall>i<k'. partialMatch (rest ! i) ((rm # rs') ! i) = Inr (True, rs' ! i)"
        using k(3) split Suc by (simp add: all_less_Suc_shift)
      moreover have "partialMatch (rest ! k') (last (rm # rs')) = Inr (False, [])"
        using k(4) split Suc by simp
      ultimately have "and_loop rest rm = Inr (False, [])"
        unfolding Cons.IH by blast
      with a show ?thesis using nil unfolding and_loop_Cons_False by blast
    qed
  qed
qed

subsection \<open>Full match and totality\<close>

lemma Matches_True_iff: "Matches p a = Inr True \<longleftrightarrow> partialMatch p a = Inr (True, [])"
proof (cases p)
  case (Base c)
  then show ?thesis
    by (cases a) (auto simp: Base_Matches_def)
next
  case (pattern args opr)
  then show ?thesis
    by (auto simp: pattern_Matches_def split: sum.splits prod.splits)
qed

lemma constructed_total:
  "constructed p \<Longrightarrow> \<exists>res. partialMatch p pcs = Inr res"
  "\<forall>a\<in>set ps. constructed a \<Longrightarrow> \<exists>res. or_loop ps pcs = Inr res"
  "\<forall>a\<in>set ps. constructed a \<Longrightarrow> \<exists>res. and_loop ps pcs = Inr res"
proof (induction p pcs and ps pcs and ps pcs rule: partialMatch_or_loop_and_loop.induct)
  case (1 p pcs)
  then show ?case by auto
next
  case (2 args opr pcs)
  then show ?case by auto
next
  case (3 pcs)
  then show ?case by auto
next
  case (4 a rest pcs)
  then show ?case by (fastforce split: sum.splits prod.splits)
next
  case (5 pcs)
  then show ?case by auto
next
  case (6 a rest pcs)
  then show ?case by (fastforce split: sum.splits prod.splits)
qed

lemma fuel_enough:
  "depth p \<le> n \<Longrightarrow> partialMatch_fuel n p pcs = Some (partialMatch p pcs)"
  "depths ps \<le> n \<Longrightarrow> or_loop_fuel n ps pcs = Some (or_loop ps pcs)"
  "depths ps \<le> n \<Longrightarrow> and_loop_fuel n ps pcs = Some (and_loop ps pcs)"
proof (induction n p pcs and n ps pcs and n ps pcs rule: partialMatch_fuel_or_loop_fuel_and_loop_fuel.induct)
  case (1 p pcs)
  then show ?case by (cases p) auto
next
  case (2 n p pcs)
  then show ?case by simp
next
  case (3 n args opr pcs)
  then show ?case by simp
next
  case (4 n pcs)
  then show ?case by simp
next
  case (5 n a rest pcs)
  then show ?case by (auto split: sum.splits prod.splits)
next
  case (6 n pcs)
  then show ?case by simp
next
  case (7 n a rest pcs)
  then show ?case by (auto split: sum.splits prod.splits)
qed

subsection \<open>Rendering\<close>

lemma String_loop_all:
  "map (String reg) ps = map Inr rs \<Longrightarrow> String_loop reg ps sub = Inr (sub @ rs)"
proof (induction ps arbitrary: sub rs)
  case Nil
  then show ?case by simp
next
  case (Cons a rest)
  then obtain s rs' where "rs = s # rs'" by (cases rs) auto
  with Cons show ?case by simp
qed

lemma constructed_String:
  "constructed p \<Longrightarrow> \<exists>s. String reg p = Inr s"
  "\<forall>a\<in>set ps. constructed a \<Longrightarrow> \<exists>ss. String_loop reg ps sub = Inr ss"
proof (induction reg p and reg ps sub rule: String_String_loop.induct)
  case (1 reg p)
  then show ?case by simp
next
  case (2 reg args opr)
  then show ?case by (auto split: sum.splits)
next
  case (3 reg sub)
  then show ?case by simp
next
  case (4 reg a rest sub)
  then show ?case by (fastforce split: sum.splits)
qed

subsection \<open>Auxiliary facts on full matches, depth and empty sequences\<close>

text \<open>
  On the trees that the constructors build, the full match panics in exactly one
  situation: an atom at the top, asked about the address with no segment.
\<close>

lemma constructed_Matches_total:
  "constructed p \<Longrightarrow> (\<exists>b. Matches p a = Inr b) \<longleftrightarrow> \<not> ((\<exists>c. p = Base c) \<and> a = [])"
proof (cases p)
  case (Base c)
  then show ?thesis by (cases a) (auto simp: Base_Matches_def)
next
  case (pattern args opr)
  assume "constructed p"
  then obtain res where "partialMatch p a = Inr res"
    using constructed_total(1) by blast
  with pattern show ?thesis
    by (cases res) (simp add: pattern_Matches_def)
qed

lemma depth_child: "a \<in> set args \<Longrightarrow> depth a \<le> depths args"
  by (induction args) auto

lemma Matches_fuel_enough: "depth p \<le> n \<Longrightarrow> Matches_fuel n p a = Some (Matches p a)"
proof (cases p)
  case (Base c)
  then show ?thesis by (simp add: Matches_fuel_def)
next
  case (pattern args opr)
  assume "depth p \<le> n"
  then have "partialMatch_fuel n p a = Some (partialMatch p a)"
    by (rule fuel_enough(1))
  with pattern show ?thesis
    by (simp add: Matches_fuel_def pattern_Matches_def split: sum.splits prod.splits)
qed

lemma and_loop_empty_children: "and_loop (replicate n (And [])) pcs = Inr (True, pcs)"
  by (induction n) (simp_all add: And_def op_and_def op_or_def)

section \<open>The claims\<close>

subsection \<open>C1: full match of an alternative\<close>

text \<open>
  Claim C1, as the code has it. The claim says that \<open>Or [P1, ..., Pn]\<close> full-matches \<open>s\<close>
  iff some child full-matches \<open>s\<close>. The loop of \<open>pattern.partialMatch\<close> returns the
  result of the first child whose partial match succeeds, so what holds is: the alternative
  full-matches \<open>s\<close> iff some child full-matches \<open>s\<close> and every child listed before it
  fails its partial match on \<open>s\<close>. In particular, when the first child partially matches
  a proper prefix of \<open>s\<close> (a non-empty remainder), the alternative does not full-match
  \<open>s\<close>, whatever the later children are.
\<close>

theorem Or_Matches_first_success:
  "(Matches (Or ps) s = Inr True \<longleftrightarrow>
      (\<exists>pre p post. ps = pre @ p # post \<and>
         (\<forall>q\<in>set pre. partialMatch q s = Inr (False, [])) \<and>
         Matches p s = Inr True)) \<and>
   (partialMatch p1 s = Inr (True, r) \<and> r \<noteq> [] \<longrightarrow> Matches (Or (p1 # rest)) s = Inr False)"
proof (intro conjI impI)
  have "Matches (Or ps) s = Inr True \<longleftrightarrow> or_loop ps s = Inr (True, [])"
    unfolding Matches_True_iff by (simp add: Or_def)
  then show "Matches (Or ps) s = Inr True \<longleftrightarrow>
      (\<exists>pre p post. ps = pre @ p # post \<and>
         (\<forall>q\<in>set pre. partialMatch q s = Inr (False, [])) \<and>
         Matches p s = Inr True)"
    unfolding Matches_True_iff or_loop_True_iff by simp
next
  assume "partialMatch p1 s = Inr (True, r) \<and> r \<noteq> []"
  then show "Matches (Or (p1 # rest)) s = Inr False"
    by (simp add: Or_def pattern_Matches_def)
qed

theorem Or_Matches_first_success_witness:
  "Matches (Or [Base 41, And [Base 4, Base 6]]) [ip4, tcp] = Inr True \<and>
   (\<exists>pre p post. [Base 41, And [Base 4, Base 6]] = pre @ p # post \<and>
      (\<forall>q\<in>set pre. partialMatch q [ip4, tcp] = Inr (False, [])) \<and>
      Matches p [ip4, tcp] = Inr True) \<and>
   partialMatch (Base 4) [ip4, tcp] = Inr (True, [tcp]) \<and> [tcp] \<noteq> [] \<and>
   Matches (Or [Base 4, And [Base 4, Base 6]]) [ip4, tcp] = Inr False"
proof -
  have m: "Matches (Or [Base 41, And [Base 4, Base 6]]) [ip4, tcp] = Inr True"
    by (simp add: ev)
  have p: "partialMatch (Base 4) [ip4, tcp] = Inr (True, [tcp]) \<and> [tcp] \<noteq> []"
    by (simp add: ev)
  note t = Or_Matches_first_success [where ps = "[Base 41, And [Base 4, Base 6]]" and s = "[ip4, tcp]"
      and ?p1.0 = "Base 4" and r = "[tcp]" and rest = "[And [Base 4, Base 6]]"]
  from t m have "\<exists>pre p post. [Base 41, And [Base 4, Base 6]] = pre @ p # post \<and>
      (\<forall>q\<in>set pre. partialMatch q [ip4, tcp] = Inr (False, [])) \<and>
      Matches p [ip4, tcp] = Inr True" by blast
  moreover from t p have "Matches (Or [Base 4, And [Base 4, Base 6]]) [ip4, tcp] = Inr False"
    by blast
  ultimately show ?thesis using m p by blast
qed

text \<open>
  The claim as stated fails: on \<open>/ip4/tcp\<close> the first child \<open>Base 4\<close> succeeds on the
  prefix \<open>/ip4\<close>, the second child \<open>And [Base 4, Base 6]\<close> full-matches the address, and
  the alternative does not.
\<close>

theorem Or_Matches_any_child_counterexample:
  "\<not> (Matches (Or [Base 4, And [Base 4, Base 6]]) [ip4, tcp] = Inr True \<longleftrightarrow>
        (Matches (Base 4) [ip4, tcp] = Inr True \<or>
         Matches (And [Base 4, Base 6]) [ip4, tcp] = Inr True))"
  by (simp add: ev)

subsection \<open>C2 and C3: the full match of an atom\<close>

text \<open>
  Claim C2 says that \<open>Matches\<close> returns a boolean for every pattern and every address,
  the empty one included, and never panics. \<open>Base.Matches\<close> indexes \<open>pcs[0]\<close> before it
  looks at the length, so on the address with no segment it panics, although the partial
  match of the same atom returns false there and so does the full match of a sequence or
  an alternative around it.
\<close>

theorem Matches_Base_empty_panics:
  "Matches (Base c) [] = Inl IndexOutOfRange \<and>
   partialMatch (Base c) [] = Inr (False, []) \<and>
   Matches (And [Base c]) [] = Inr False \<and>
   Matches (Or [Base c]) [] = Inr False"
  by (simp add: ev)

text \<open>
  Claim C3 says that an atom with code \<open>c\<close> full-matches a one-segment address iff the
  segment's code is \<open>c\<close>, and returns false on the empty address and on every address of
  two or more segments. The first and the last part hold; on the empty address
  \<open>Base.Matches\<close> panics instead of returning false.
\<close>

theorem Base_Matches_by_length:
  "Base_Matches c [] = Inl IndexOutOfRange \<and>
   Base_Matches c [seg] = Inr (Code seg = c) \<and>
   Base_Matches c (seg1 # seg2 # others) = Inr False"
  by (simp add: Base_Matches_def)

subsection \<open>C4: partial match of a sequence\<close>

text \<open>
  Claim C4. The partial match of \<open>And ps\<close> returns false whenever the input has fewer
  segments than \<open>ps\<close> has children. Otherwise the children run in listed order, each on
  the remainder of the one before it: the match succeeds with remainder \<open>r\<close> iff there
  are remainders \<open>rs\<close>, one per child, such that child \<open>i\<close> succeeds on the input (for
  \<open>i = 0\<close>) or on \<open>rs ! (i - 1)\<close> and returns \<open>rs ! i\<close>, and \<open>r\<close> is the last of them;
  it fails iff some child \<open>k\<close> fails on the remainder that the children before it, all
  successful, have left. A failure returns the empty remainder.
\<close>

theorem And_partialMatch_threads:
  "(length pcs < length ps \<longrightarrow> partialMatch (And ps) pcs = Inr (False, [])) \<and>
   (partialMatch (And ps) pcs = Inr (True, r) \<longleftrightarrow>
      length ps \<le> length pcs \<and>
      (\<exists>rs. length rs = length ps \<and>
         (\<forall>i<length ps. partialMatch (ps ! i) ((pcs # rs) ! i) = Inr (True, rs ! i)) \<and>
         r = last (pcs # rs))) \<and>
   (partialMatch (And ps) pcs = Inr (False, r) \<longleftrightarrow>
      r = [] \<and>
      (length pcs < length ps \<or>
       (\<exists>k<length ps. \<exists>rs. length rs = k \<and>
          (\<forall>i<k. partialMatch (ps ! i) ((pcs # rs) ! i) = Inr (True, rs ! i)) \<and>
          partialMatch (ps ! k) (last (pcs # rs)) = Inr (False, []))))"
proof (cases "length pcs < length ps")
  case True
  then have "partialMatch (And ps) pcs = Inr (False, [])"
    by (simp add: And_def op_and_def op_or_def)
  with True show ?thesis by auto
next
  case False
  then have "partialMatch (And ps) pcs = and_loop ps pcs"
    by (simp add: And_def op_and_def op_or_def)
  with False show ?thesis
    using and_loop_True_iff [of ps pcs r] and_loop_False_iff [of ps pcs r] by simp
qed

theorem And_partialMatch_threads_witness:
  "length [ip4] < length [Base 4, Base 6] \<and>
   partialMatch (And [Base 4, Base 6]) [ip4] = Inr (False, []) \<and>
   partialMatch (And [Base 4, Base 6]) [ip4, tcp, http] = Inr (True, [http]) \<and>
   (\<exists>rs. length rs = length [Base 4, Base 6] \<and>
      (\<forall>i<length [Base 4, Base 6]. partialMatch ([Base 4, Base 6] ! i) (([ip4, tcp, http] # rs) ! i) = Inr (True, rs ! i)) \<and>
      [http] = last ([ip4, tcp, http] # rs)) \<and>
   partialMatch (And [Base 4, Base 6]) [ip4, udp, http] = Inr (False, []) \<and>
   (\<exists>k<length [Base 4, Base 6]. \<exists>rs. length rs = k \<and>
      (\<forall>i<k. partialMatch ([Base 4, Base 6] ! i) (([ip4, udp, http] # rs) ! i) = Inr (True, rs ! i)) \<and>
      partialMatch ([Base 4, Base 6] ! k) (last ([ip4, udp, http] # rs)) = Inr (False, []))"
proof -
  have a: "length [ip4] < length [Base 4, Base 6]" by simp
  have b: "partialMatch (And [Base 4, Base 6]) [ip4, tcp, http] = Inr (True, [http])"
    by (simp add: ev)
  have c: "partialMatch (And [Base 4, Base 6]) [ip4, udp, http] = Inr (False, [])"
    by (simp add: ev)
  have "partialMatch (And [Base 4, Base 6]) [ip4] = Inr (False, [])"
    using And_partialMatch_threads [where ps = "[Base 4, Base 6]" and pcs = "[ip4]", THEN conjunct1] a by (rule mp)
  moreover have "\<exists>rs. length rs = length [Base 4, Base 6] \<and>
      (\<forall>i<length [Base 4, Base 6]. partialMatch ([Base 4, Base 6] ! i) (([ip4, tcp, http] # rs) ! i) = Inr (True, rs ! i)) \<and>
      [http] = last ([ip4, tcp, http] # rs)"
    using And_partialMatch_threads [where ps = "[Base 4, Base 6]" and pcs = "[ip4, tcp, http]" and r = "[http]",
        THEN conjunct2, THEN conjunct1, THEN iffD1, OF b]
    by (rule conjunct2)
  moreover have "\<exists>k<length [Base 4, Base 6]. \<exists>rs. length rs = k \<and>
      (\<forall>i<k. partialMatch ([Base 4, Base 6] ! i) (([ip4, udp, http] # rs) ! i) = Inr (True, rs ! i)) \<and>
      partialMatch ([Base 4, Base 6] ! k) (last ([ip4, udp, http] # rs)) = Inr (False, [])"
    using And_partialMatch_threads [where ps = "[Base 4, Base 6]" and pcs = "[ip4, udp, http]" and r = "[]",
        THEN conjunct2, THEN conjunct2, THEN iffD1, OF c]
    by simp
  ultimately show ?thesis using a b c by blast
qed

subsection \<open>C5: partial match of an alternative\<close>

text \<open>
  Claim C5. The partial match of \<open>Or ps\<close> succeeds with remainder \<open>r\<close> iff \<open>ps\<close> splits
  into children \<open>pre\<close> that all fail, a child \<open>p\<close> that succeeds with remainder \<open>r\<close>, and
  any later children \<open>post\<close>, which are not consulted; it fails iff every child fails.
\<close>

theorem Or_partialMatch_first_success:
  "(partialMatch (Or ps) pcs = Inr (True, r) \<longleftrightarrow>
      (\<exists>pre p post. ps = pre @ p # post \<and>
         (\<forall>q\<in>set pre. partialMatch q pcs = Inr (False, [])) \<and>
         partialMatch p pcs = Inr (True, r))) \<and>
   (partialMatch (Or ps) pcs = Inr (False, r) \<longleftrightarrow>
      r = [] \<and> (\<forall>q\<in>set ps. partialMatch q pcs = Inr (False, [])))"
  using or_loop_True_iff [of ps pcs r] or_loop_False_iff [of ps pcs r]
  by (simp add: Or_def)

theorem Or_partialMatch_first_success_witness:
  "partialMatch (Base 41) [ip4, tcp] = Inr (False, []) \<and>
   partialMatch (Base 4) [ip4, tcp] = Inr (True, [tcp]) \<and>
   partialMatch (pattern [] 7) [ip4, tcp] = Inl UnrecognizedPatternOperand \<and>
   partialMatch (Or ([Base 41] @ Base 4 # [pattern [] 7])) [ip4, tcp] = Inr (True, [tcp]) \<and>
   partialMatch (Base 41) [ip4] = Inr (False, []) \<and>
   partialMatch (Base 6) [ip4] = Inr (False, []) \<and>
   partialMatch (Or [Base 41, Base 6]) [ip4] = Inr (False, [])"
proof -
  have a: "partialMatch (Base 41) [ip4, tcp] = Inr (False, [])"
    by (simp add: ev)
  have b: "partialMatch (Base 4) [ip4, tcp] = Inr (True, [tcp])"
    by (simp add: ev)
  have c: "partialMatch (pattern [] 7) [ip4, tcp] = Inl UnrecognizedPatternOperand"
    by (simp add: ev)
  have d: "partialMatch (Base 41) [ip4] = Inr (False, [])"
    and e: "partialMatch (Base 6) [ip4] = Inr (False, [])"
    by (simp_all add: ev)
  have "\<forall>q\<in>set [Base 41]. partialMatch q [ip4, tcp] = Inr (False, [])"
    using a by simp
  then have "\<exists>pre p post. [Base 41] @ Base 4 # [pattern [] 7] = pre @ p # post \<and>
      (\<forall>q\<in>set pre. partialMatch q [ip4, tcp] = Inr (False, [])) \<and>
      partialMatch p [ip4, tcp] = Inr (True, [tcp])"
    using b by blast
  then have "partialMatch (Or ([Base 41] @ Base 4 # [pattern [] 7])) [ip4, tcp] = Inr (True, [tcp])"
    by (rule Or_partialMatch_first_success
        [where ps = "[Base 41] @ Base 4 # [pattern [] 7]" and pcs = "[ip4, tcp]" and r = "[tcp]",
         THEN conjunct1, THEN iffD2])
  moreover have "\<forall>q\<in>set [Base 41, Base 6]. partialMatch q [ip4] = Inr (False, [])"
    using d e by simp
  then have "partialMatch (Or [Base 41, Base 6]) [ip4] = Inr (False, [])"
    using Or_partialMatch_first_success
        [where ps = "[Base 41, Base 6]" and pcs = "[ip4]" and r = "[]", THEN conjunct2]
    by blast
  ultimately show ?thesis using a b c d e by blast
qed

subsection \<open>C6: patterns without children\<close>

text \<open>
  Claim C6. The sequence with no child full-matches the empty address and no other; the
  alternative with no child full-matches no address.
\<close>

theorem empty_And_Or_Matches:
  "Matches (And []) s = Inr (s = []) \<and> Matches (Or []) s = Inr False"
  by (simp add: ev)

subsection \<open>C7: no backtracking into an alternative\<close>

text \<open>
  Claim C7. There are patterns \<open>A\<close>, \<open>B\<close>, \<open>C\<close> and an address \<open>s\<close> such that
  \<open>And [Or [A, B], C]\<close> does not full-match \<open>s\<close> while \<open>And [B, C]\<close> does: \<open>A\<close> matches a
  prefix of \<open>s\<close>, the alternative returns the remainder of \<open>A\<close>, and \<open>C\<close> fails on it.
\<close>

theorem Or_commits_inside_And:
  "\<exists>A B C s r.
     r \<noteq> [] \<and>
     partialMatch A s = Inr (True, r) \<and>
     partialMatch (Or [A, B]) s = Inr (True, r) \<and>
     partialMatch C r = Inr (False, []) \<and>
     Matches (And [Or [A, B], C]) s = Inr False \<and>
     Matches (And [B, C]) s = Inr True"
proof -
  have "[tcp, http] \<noteq> [] \<and>
     partialMatch (Base 4) [ip4, tcp, http] = Inr (True, [tcp, http]) \<and>
     partialMatch (Or [Base 4, And [Base 4, Base 6]]) [ip4, tcp, http] = Inr (True, [tcp, http]) \<and>
     partialMatch (Base 480) [tcp, http] = Inr (False, []) \<and>
     Matches (And [Or [Base 4, And [Base 4, Base 6]], Base 480]) [ip4, tcp, http] = Inr False \<and>
     Matches (And [And [Base 4, Base 6], Base 480]) [ip4, tcp, http] = Inr True"
    by (simp add: ev)
  then show ?thesis by blast
qed

subsection \<open>C8: rendering\<close>

text \<open>
  Claim C8. An atom renders as the registry's name of its code; a sequence renders as
  its children's renderings joined with \<open>/\<close>, without brackets; an alternative renders as
  its children's renderings joined with \<open>|\<close> and wrapped in braces. Every tree built by
  the constructors has a rendering.
\<close>

theorem String_renders:
  "String reg (Base c) = Inr (Name (reg c)) \<and>
   (map (String reg) ps = map Inr rs \<longrightarrow>
      String reg (And ps) = Inr (Join rs ''/'') \<and>
      String reg (Or ps) = Inr (''{'' @ Join rs ''|'' @ ''}'')) \<and>
   (constructed p \<longrightarrow> (\<exists>s. String reg p = Inr s))"
proof (intro conjI impI)
  show "String reg (Base c) = Inr (Name (reg c))" by simp
next
  assume "map (String reg) ps = map Inr rs"
  then have "String_loop reg ps [] = Inr rs"
    using String_loop_all [of reg ps rs "[]"] by simp
  then show "String reg (And ps) = Inr (Join rs ''/'')"
    and "String reg (Or ps) = Inr (''{'' @ Join rs ''|'' @ ''}'')"
    by (simp_all add: And_def Or_def op_and_def op_or_def)
next
  assume "constructed p"
  then show "\<exists>s. String reg p = Inr s" by (rule constructed_String(1))
qed

theorem String_renders_witness:
  "map (String sample_registry) [Base 4, Base 6] = map Inr [''ip4'', ''tcp''] \<and>
   String sample_registry (And [Base 4, Base 6]) = Inr ''ip4/tcp'' \<and>
   String sample_registry (Or [Base 4, Base 6]) = Inr ''{ip4|tcp}'' \<and>
   map (String sample_registry) [Or [Base 4, Base 41], Base 6] = map Inr [''{ip4|ip6}'', ''tcp''] \<and>
   String sample_registry (And [Or [Base 4, Base 41], Base 6]) = Inr ''{ip4|ip6}/tcp'' \<and>
   constructed (And [Or [Base 4, Base 41], Base 6]) \<and>
   (\<exists>s. String sample_registry (And [Or [Base 4, Base 41], Base 6]) = Inr s)"
proof -
  have a: "map (String sample_registry) [Base 4, Base 6] = map Inr [''ip4'', ''tcp'']"
    by (simp add: sample_registry_def ev)
  have b: "map (String sample_registry) [Or [Base 4, Base 41], Base 6] =
      map Inr [''{ip4|ip6}'', ''tcp'']"
    by (simp add: sample_registry_def ev)
  have c: "constructed (And [Or [Base 4, Base 41], Base 6])"
    by (simp add: ev)
  have "String sample_registry (And [Base 4, Base 6]) = Inr (Join [''ip4'', ''tcp''] ''/'') \<and>
      String sample_registry (Or [Base 4, Base 6]) = Inr (''{'' @ Join [''ip4'', ''tcp''] ''|'' @ ''}'')"
    using String_renders [where reg = sample_registry and ps = "[Base 4, Base 6]"
        and rs = "[''ip4'', ''tcp'']", THEN conjunct2, THEN conjunct1] a
    by (rule mp)
  then have "String sample_registry (And [Base 4, Base 6]) = Inr ''ip4/tcp'' \<and>
      String sample_registry (Or [Base 4, Base 6]) = Inr ''{ip4|tcp}''"
    by simp
  moreover have "String sample_registry (And [Or [Base 4, Base 41], Base 6]) =
      Inr (Join [''{ip4|ip6}'', ''tcp''] ''/'')"
    using String_renders [where reg = sample_registry and ps = "[Or [Base 4, Base 41], Base 6]"
        and rs = "[''{ip4|ip6}'', ''tcp'']", THEN conjunct2, THEN conjunct1, THEN mp, OF b]
    by (rule conjunct1)
  then have "String sample_registry (And [Or [Base 4, Base 41], Base 6]) = Inr ''{ip4|ip6}/tcp''"
    by simp
  moreover have "\<exists>s. String sample_registry (And [Or [Base 4, Base 41], Base 6]) = Inr s"
    using String_renders [where reg = sample_registry
        and p = "And [Or [Base 4, Base 41], Base 6]", THEN conjunct2, THEN conjunct2] c
    by (rule mp)
  ultimately show ?thesis using a b c by blast
qed

subsection \<open>C9: termination\<close>

text \<open>
  Claim C9. Matching terminates: with a bound of at least the height of the pattern tree
  on the depth of nested calls, the partial match and the full match return, and return
  what the unbounded functions compute. Each recursive call goes to a child, of strictly
  smaller height, and a returned remainder is a suffix of the input.
\<close>

theorem matching_terminates:
  "(depth p \<le> n \<longrightarrow>
      partialMatch_fuel n p pcs = Some (partialMatch p pcs) \<and>
      Matches_fuel n p pcs = Some (Matches p pcs)) \<and>
   (partialMatch p pcs = Inr (ok, r) \<longrightarrow> suffix r pcs) \<and>
   (a \<in> set args \<longrightarrow> depth a < depth (pattern args opr))"
proof (intro conjI impI)
  assume "depth p \<le> n"
  then show "partialMatch_fuel n p pcs = Some (partialMatch p pcs)"
    and "Matches_fuel n p pcs = Some (Matches p pcs)"
    by (rule fuel_enough(1), rule Matches_fuel_enough)
next
  assume "partialMatch p pcs = Inr (ok, r)"
  then show "suffix r pcs" by (rule remainder_suffix(1))
next
  assume "a \<in> set args"
  then have "depth a \<le> depths args" by (rule depth_child)
  then show "depth a < depth (pattern args opr)" by simp
qed

theorem matching_terminates_witness:
  "depth (And [Or [Base 4, Base 41], Base 6]) \<le> Suc (Suc (Suc 0)) \<and>
   partialMatch_fuel (Suc (Suc (Suc 0))) (And [Or [Base 4, Base 41], Base 6]) [ip4, tcp, http] =
     Some (Inr (True, [http])) \<and>
   Matches_fuel (Suc (Suc (Suc 0))) (And [Or [Base 4, Base 41], Base 6]) [ip4, tcp, http] =
     Some (Inr False) \<and>
   partialMatch_fuel (Suc (Suc 0)) (And [Or [Base 4, Base 41], Base 6]) [ip4, tcp, http] = None \<and>
   suffix [http] [ip4, tcp, http] \<and>
   Base 6 \<in> set [Or [Base 4, Base 41], Base 6] \<and>
   depth (Base 6) < depth (pattern [Or [Base 4, Base 41], Base 6] op_and)"
proof -
  let ?p = "And [Or [Base 4, Base 41], Base 6]"
  have d: "depth ?p \<le> Suc (Suc (Suc 0))" by (simp add: ev)
  have pm: "partialMatch ?p [ip4, tcp, http] = Inr (True, [http])" by (simp add: ev)
  have m: "Matches ?p [ip4, tcp, http] = Inr False" by (simp add: ev)
  have short: "partialMatch_fuel (Suc (Suc 0)) ?p [ip4, tcp, http] = None" by (simp add: ev)
  have mem: "Base 6 \<in> set [Or [Base 4, Base 41], Base 6]" by simp
  note t = matching_terminates [where p = ?p and n = "Suc (Suc (Suc 0))"
      and pcs = "[ip4, tcp, http]" and ok = True and r = "[http]" and a = "Base 6"
      and args = "[Or [Base 4, Base 41], Base 6]" and opr = op_and]
  have "partialMatch_fuel (Suc (Suc (Suc 0))) ?p [ip4, tcp, http] = Some (partialMatch ?p [ip4, tcp, http]) \<and>
      Matches_fuel (Suc (Suc (Suc 0))) ?p [ip4, tcp, http] = Some (Matches ?p [ip4, tcp, http])"
    using t [THEN conjunct1] d by (rule mp)
  then have "partialMatch_fuel (Suc (Suc (Suc 0))) ?p [ip4, tcp, http] = Some (Inr (True, [http])) \<and>
      Matches_fuel (Suc (Suc (Suc 0))) ?p [ip4, tcp, http] = Some (Inr False)"
    unfolding pm m .
  moreover have "suffix [http] [ip4, tcp, http]"
    using t [THEN conjunct2, THEN conjunct1] pm by (rule mp)
  moreover have "depth (Base 6) < depth (pattern [Or [Base 4, Base 41], Base 6] op_and)"
    using t [THEN conjunct2, THEN conjunct2] mem by (rule mp)
  ultimately show ?thesis using d short mem by blast
qed

subsection \<open>C10: the length check of a sequence decides\<close>

text \<open>
  Claim C10. A sequence with more children than the input has segments fails, whatever
  its children would do: a list of empty sequences passes the loop on any input without
  consuming a segment, and yet \<open>And [And []]\<close> does not full-match the empty address, which
  its only child \<open>And []\<close> full-matches.
\<close>

theorem And_length_check_authoritative:
  "(length pcs < length ps \<longrightarrow>
      partialMatch (And ps) pcs = Inr (False, []) \<and> Matches (And ps) pcs = Inr False) \<and>
   and_loop (replicate n (And [])) pcs = Inr (True, pcs) \<and>
   Matches (And []) [] = Inr True \<and>
   Matches (And [And []]) [] = Inr False"
proof (intro conjI impI)
  assume "length pcs < length ps"
  then show "partialMatch (And ps) pcs = Inr (False, [])"
    and "Matches (And ps) pcs = Inr False"
    by (simp_all add: ev)
next
  show "and_loop (replicate n (And [])) pcs = Inr (True, pcs)"
    by (rule and_loop_empty_children)
next
  show "Matches (And []) [] = Inr True" and "Matches (And [And []]) [] = Inr False"
    by (simp_all add: ev)
qed

theorem And_length_check_authoritative_witness:
  "length ([]::Protocol list) < length [And []] \<and>
   partialMatch (And [And []]) [] = Inr (False, []) \<and>
   Matches (And [And []]) [] = Inr False \<and>
   and_loop [And []] [] = Inr (True, [])"
proof -
  have l: "length ([]::Protocol list) < length [And []]" by simp
  have "partialMatch (And [And []]) [] = Inr (False, []) \<and> Matches (And [And []]) [] = Inr False"
    using And_length_check_authoritative [where pcs = "[]" and ps = "[And []]", THEN conjunct1] l
    by (rule mp)
  moreover have "and_loop (replicate (Suc 0) (And [])) [] = Inr (True, [])"
    by (rule And_length_check_authoritative
        [where n = "Suc 0" and pcs = "[]", THEN conjunct2, THEN conjunct1])
  then have "and_loop [And []] [] = Inr (True, [])" by simp
  ultimately show ?thesis using l by blast
qed

end
